theory Spec2Isabelle
  imports Main "HOL-Library.Sublist"
begin

section \<open>Strings and numbers of the host language\<close>

text \<open>
  The data-access module (the second part of \<^verbatim>\<open>src/lib/speech-recognition.ts\<close>) builds
  identifiers with template literals and reads them back with \<^verbatim>\<open>String.replace\<close> and
  \<^verbatim>\<open>parseInt\<close>. A string is a list of code units. \<^verbatim>\<open>chat_rank\<close> is an \<^verbatim>\<open>INTEGER\<close>
  column, so every rank is an integer that a JavaScript number holds exactly and prints
  in plain decimal notation.
\<close>

definition digit_char :: "nat \<Rightarrow> char" where
  "digit_char d = ''0123456789'' ! d"

definition is_digit :: "char \<Rightarrow> bool" where
  "is_digit c = (c \<in> set ''0123456789'')"

definition digit_value :: "char \<Rightarrow> nat" where
  "digit_value c = of_char c - 48"

text \<open>Decimal digits of a natural number, most significant first.\<close>

fun nat_toString :: "nat \<Rightarrow> string" where
  "nat_toString n =
     (if n < 10 then [digit_char n] else nat_toString (n div 10) @ [digit_char (n mod 10)])"

declare nat_toString.simps [simp del]

text \<open>\<^verbatim>\<open>`${n}`\<close> for an integer-valued number \<open>n\<close>.\<close>

definition number_toString :: "int \<Rightarrow> string" where
  "number_toString n = (if n < 0 then CHR ''-'' # nat_toString (nat (- n)) else nat_toString (nat n))"

text \<open>
  \<^verbatim>\<open>s.replace(pat, rep)\<close> with a string pattern: only the first occurrence is replaced.
\<close>

fun replace :: "string \<Rightarrow> string \<Rightarrow> string \<Rightarrow> string" where
  "replace [] pat rep = (if pat = [] then rep else [])"
| "replace (c # cs) pat rep =
     (if prefix pat (c # cs) then rep @ drop (length pat) (c # cs)
      else c # replace cs pat rep)"

text \<open>\<^verbatim>\<open>s.includes(pat)\<close>.\<close>

fun includes_str :: "string \<Rightarrow> string \<Rightarrow> bool" where
  "includes_str [] pat = (pat = [])"
| "includes_str (c # cs) pat = (prefix pat (c # cs) \<or> includes_str cs pat)"

text \<open>
  The white space that \<^verbatim>\<open>parseInt\<close> skips, as far as it fits a single byte: tab, line
  feed, vertical tab, form feed, carriage return, space and the no-break space.
\<close>

definition is_space :: "char \<Rightarrow> bool" where
  "is_space c = ((of_char c :: nat) \<in> {9, 10, 11, 12, 13, 32, 160})"

text \<open>
  \<^verbatim>\<open>parseInt(s, 10)\<close>: leading white space is skipped, one sign is accepted, then the
  longest run of decimal digits is read and whatever follows is ignored. Without a digit
  the result is \<^verbatim>\<open>NaN\<close>, here \<open>None\<close>.
\<close>

definition parseInt :: "string \<Rightarrow> int option" where
  "parseInt s =
     (let t = dropWhile is_space s;
          neg = (t \<noteq> [] \<and> hd t = CHR ''-'');
          u = (if t \<noteq> [] \<and> (hd t = CHR ''-'' \<or> hd t = CHR ''+'') then tl t else t);
          ds = takeWhile is_digit u
      in if ds = [] then None
         else let v = int (foldl (\<lambda>a c. 10 * a + digit_value c) 0 ds)
              in Some (if neg then - v else v))"

text \<open>
  The rank named by a conversation token, as both \<^verbatim>\<open>deleteConversation\<close> and
  \<^verbatim>\<open>getConversationMessages\<close> extract it:
  \<^verbatim>\<open>parseInt(conversationId.replace('conv_', '').replace('session_', ''), 10)\<close>.
\<close>

definition token_rank :: "string \<Rightarrow> int option" where
  "token_rank conversationId = parseInt (replace (replace conversationId ''conv_'' '''') ''session_'' '''')"

section \<open>The data model\<close>

text \<open>
  A row of the table \<^verbatim>\<open>chat_history\<close> (\<^verbatim>\<open>NEW_DATABASE_SCHEMA.sql\<close>). Timestamps are kept
  as the ISO strings the client sends and receives.
\<close>

record DbChatHistory =
  chat_id :: string
  user_id :: string
  user_request :: string
  ai_response :: string
  chat_rank :: int
  created_at :: string
  updated_at :: string

datatype Role = User | Assistant

record Message =
  id_msg :: string
  content_msg :: string
  role_msg :: Role
  timestamp_msg :: string
  attachments_msg :: "string list option"

record Conversation =
  id_conv :: string
  title_conv :: string
  timestamp_conv :: string
  preview_conv :: string
  messages_conv :: "Message list"
  sessionId_conv :: string
  startRank_conv :: int

text \<open>
  The object held in \<^verbatim>\<open>currentConversation\<close> while \<^verbatim>\<open>fetchConversations\<close> walks the log.
\<close>

record CurrentConversation =
  startRank_cur :: int
  entries_cur :: "DbChatHistory list"
  sessionId_cur :: string

text \<open>
  What the module takes from its host: the clock, the random suffix of a session id
  (\<^verbatim>\<open>Math.random().toString(36).substr(2, 9)\<close>) and the two locale-dependent formatting
  functions.
\<close>

record host =
  Date_now :: int
  random_suffix :: string
  toISOString_now :: string
  formatTime :: "string \<Rightarrow> string"
  formatTimestamp :: "string \<Rightarrow> string"

section \<open>The store\<close>

text \<open>
  The two tables of the schema. A request to the store either reaches it (\<open>Up\<close>) or fails
  in transit (\<open>Down\<close>); a request that reaches it can still be rejected by a constraint.
\<close>

record database =
  users :: "string list"
  chat_history :: "DbChatHistory list"

datatype link = Up | Down

datatype pg_error =
  NetworkError | DuplicateKey | ForeignKeyViolation | NumericValueOutOfRange | InvalidTextRepresentation

text \<open>
  \<^verbatim>\<open>.select('*').eq('user_id', userId).order('chat_rank', { ascending: true })\<close>
\<close>

definition user_history :: "database \<Rightarrow> string \<Rightarrow> DbChatHistory list" where
  "user_history db userId = sort_key chat_rank (filter (\<lambda>r. user_id r = userId) (chat_history db))"

definition select_user_history :: "link \<Rightarrow> database \<Rightarrow> string \<Rightarrow> pg_error + DbChatHistory list" where
  "select_user_history l db userId = (case l of Down \<Rightarrow> Inl NetworkError | Up \<Rightarrow> Inr (user_history db userId))"

text \<open>
  \<^verbatim>\<open>.select(...).gte('chat_rank', startRank).order('chat_rank', { ascending: true })\<close>:
  the query names no user. Rows of equal rank, which belong to different users, are listed
  in the order of the table; the database leaves their order open.
\<close>

definition history_from :: "database \<Rightarrow> int \<Rightarrow> DbChatHistory list" where
  "history_from db startRank = sort_key chat_rank (filter (\<lambda>r. startRank \<le> chat_rank r) (chat_history db))"

definition select_history_from :: "link \<Rightarrow> database \<Rightarrow> int \<Rightarrow> pg_error + DbChatHistory list" where
  "select_history_from l db startRank = (case l of Down \<Rightarrow> Inl NetworkError | Up \<Rightarrow> Inr (history_from db startRank))"

text \<open>
  \<^verbatim>\<open>.select('chat_rank').eq('user_id', userId).order('chat_rank', { ascending: false }).limit(1).maybeSingle()\<close>:
  the highest rank of the user, \<open>None\<close> (\<^verbatim>\<open>null\<close>) when the user has no row.
\<close>

definition select_max_rank :: "link \<Rightarrow> database \<Rightarrow> string \<Rightarrow> pg_error + int option" where
  "select_max_rank l db userId =
     (case l of Down \<Rightarrow> Inl NetworkError
      | Up \<Rightarrow> Inr (case rev (user_history db userId) of [] \<Rightarrow> None | r # _ \<Rightarrow> Some (chat_rank r)))"

text \<open>
  What the column types accept: \<^verbatim>\<open>chat_rank\<close> is an \<^verbatim>\<open>INTEGER\<close> of 32 bits, and a \<^verbatim>\<open>TEXT\<close>
  value cannot hold the character U+0000.
\<close>

definition fits_integer :: "int \<Rightarrow> bool" where
  "fits_integer n = (- 2147483648 \<le> n \<and> n \<le> 2147483647)"

definition valid_text :: "string \<Rightarrow> bool" where
  "valid_text s = (CHR 0x00 \<notin> set s)"

text \<open>
  \<^verbatim>\<open>.insert(row)\<close>: the values must fit their columns, \<^verbatim>\<open>chat_id\<close> is the primary key,
  \<^verbatim>\<open>idx_chat_history_user_rank\<close> is a unique index on \<^verbatim>\<open>(user_id, chat_rank)\<close>, and \<^verbatim>\<open>fk_user\<close>
  requires the user to exist.
\<close>

definition insert_row :: "link \<Rightarrow> database \<Rightarrow> DbChatHistory \<Rightarrow> pg_error + database" where
  "insert_row l db row =
     (case l of Down \<Rightarrow> Inl NetworkError
      | Up \<Rightarrow>
          if \<not> fits_integer (chat_rank row) then Inl NumericValueOutOfRange
          else if \<not> (valid_text (chat_id row) \<and> valid_text (user_id row) \<and>
                       valid_text (user_request row) \<and> valid_text (ai_response row))
          then Inl InvalidTextRepresentation
          else if user_id row \<notin> set (users db) then Inl ForeignKeyViolation
          else if list_ex (\<lambda>r. chat_id r = chat_id row \<or> (user_id r = user_id row \<and> chat_rank r = chat_rank row))
                    (chat_history db)
          then Inl DuplicateKey
          else Inr (db\<lparr>chat_history := chat_history db @ [row]\<rparr>))"

text \<open>
  \<^verbatim>\<open>.delete().gte('chat_rank', startRank).lte('chat_rank', endRank)\<close>: again no user is named.
\<close>

definition delete_range :: "link \<Rightarrow> database \<Rightarrow> int \<Rightarrow> int \<Rightarrow> pg_error + database" where
  "delete_range l db startRank endRank =
     (case l of Down \<Rightarrow> Inl NetworkError
      | Up \<Rightarrow> Inr (db\<lparr>chat_history :=
                 filter (\<lambda>r. \<not> (startRank \<le> chat_rank r \<and> chat_rank r \<le> endRank)) (chat_history db)\<rparr>))"

text \<open>The unique index, as a property of a store.\<close>

definition idx_chat_history_user_rank :: "database \<Rightarrow> bool" where
  "idx_chat_history_user_rank db = distinct (map (\<lambda>r. (user_id r, chat_rank r)) (chat_history db))"

section \<open>The session tracker\<close>

record session =
  currentSessionId :: "string option"
  currentSessionStartRank :: int

definition initial_session :: session where
  "initial_session = \<lparr>currentSessionId = None, currentSessionStartRank = 0\<rparr>"

definition new_session_id :: "host \<Rightarrow> string" where
  "new_session_id h = ''session_'' @ number_toString (Date_now h) @ ''_'' @ random_suffix h"

definition startNewSession :: "host \<Rightarrow> session \<Rightarrow> string \<times> session" where
  "startNewSession h s = (new_session_id h, s\<lparr>currentSessionId := Some (new_session_id h)\<rparr>)"

definition getCurrentSessionId :: "session \<Rightarrow> string option" where
  "getCurrentSessionId s = currentSessionId s"

definition setCurrentSession :: "string \<Rightarrow> int \<Rightarrow> session \<Rightarrow> session" where
  "setCurrentSession sid rank s = s\<lparr>currentSessionId := Some sid, currentSessionStartRank := rank\<rparr>"

definition clearCurrentSession :: "session \<Rightarrow> session" where
  "clearCurrentSession s = s\<lparr>currentSessionId := None, currentSessionStartRank := 0\<rparr>"

section \<open>Reading conversations\<close>

text \<open>
  The body of the \<^verbatim>\<open>forEach\<close> that both \<^verbatim>\<open>createConversationFromEntries\<close> and
  \<^verbatim>\<open>getConversationMessages\<close> run over their entries: two pushes per entry.
\<close>

definition push_entry_messages :: "host \<Rightarrow> Message list \<Rightarrow> DbChatHistory \<Rightarrow> Message list" where
  "push_entry_messages h messages entry =
     messages @
     [\<lparr>id_msg = chat_id entry @ ''_user'', content_msg = user_request entry, role_msg = User,
       timestamp_msg = formatTime h (created_at entry), attachments_msg = None\<rparr>,
      \<lparr>id_msg = chat_id entry @ ''_assistant'', content_msg = ai_response entry, role_msg = Assistant,
       timestamp_msg = formatTime h (created_at entry), attachments_msg = None\<rparr>]"

text \<open>
  The object that \<^verbatim>\<open>createConversationFromEntries\<close> returns, given \<^verbatim>\<open>firstEntry\<close> and
  \<^verbatim>\<open>lastEntry\<close>.
\<close>

definition conversation_from ::
  "host \<Rightarrow> CurrentConversation \<Rightarrow> DbChatHistory \<Rightarrow> DbChatHistory \<Rightarrow> Conversation" where
  "conversation_from h data firstEntry lastEntry =
     \<lparr>id_conv = sessionId_cur data,
      title_conv = take 50 (user_request firstEntry) @
                   (if length (user_request firstEntry) > 50 then ''...'' else []),
      timestamp_conv = formatTimestamp h (created_at lastEntry),
      preview_conv = take 100 (user_request firstEntry) @
                     (if length (user_request firstEntry) > 100 then ''...'' else []),
      messages_conv = foldl (push_entry_messages h) [] (entries_cur data),
      sessionId_conv = sessionId_cur data,
      startRank_conv = startRank_cur data\<rparr>"

text \<open>
  \<^verbatim>\<open>createConversationFromEntries\<close> reads \<^verbatim>\<open>data.entries[0].user_request\<close>; on an empty
  entry list that read throws, which is the result \<open>None\<close>.
\<close>

definition createConversationFromEntries :: "host \<Rightarrow> CurrentConversation \<Rightarrow> Conversation option" where
  "createConversationFromEntries h data =
     (case entries_cur data of
        [] \<Rightarrow> None
      | firstEntry # _ \<Rightarrow> Some (conversation_from h data firstEntry (last (entries_cur data))))"

text \<open>
  \<^verbatim>\<open>!currentConversation || (prevEntry && entry.chat_rank !== prevEntry.chat_rank + 1)\<close>
\<close>

definition shouldStartNew :: "CurrentConversation option \<Rightarrow> DbChatHistory option \<Rightarrow> DbChatHistory \<Rightarrow> bool" where
  "shouldStartNew currentConversation prevEntry entry =
     (currentConversation = None \<or>
      (case prevEntry of None \<Rightarrow> False | Some p \<Rightarrow> chat_rank entry \<noteq> chat_rank p + 1))"

text \<open>
  \<^verbatim>\<open>if (currentConversation && currentConversation.entries.length > 0)
    conversations.push(createConversationFromEntries(currentConversation))\<close>
\<close>

definition push_conversation ::
  "host \<Rightarrow> Conversation list \<Rightarrow> CurrentConversation option \<Rightarrow> Conversation list option" where
  "push_conversation h conversations currentConversation =
     (case currentConversation of
        None \<Rightarrow> Some conversations
      | Some c \<Rightarrow>
          if entries_cur c \<noteq> []
          then map_option (\<lambda>x. conversations @ [x]) (createConversationFromEntries h c)
          else Some conversations)"

text \<open>
  The \<^verbatim>\<open>for\<close> loop of \<^verbatim>\<open>fetchConversations\<close>, from index \<open>i\<close> on: \<open>prevEntry\<close> is
  \<^verbatim>\<open>chatHistory[i - 1]\<close> (\<^verbatim>\<open>null\<close> at \<open>i = 0\<close>), the list is \<^verbatim>\<open>chatHistory\<close> from \<open>i\<close>. An
  exception inside the loop is the result \<open>None\<close>.
\<close>

fun group_entries ::
  "host \<Rightarrow> DbChatHistory option \<Rightarrow> DbChatHistory list \<Rightarrow> Conversation list \<Rightarrow>
   CurrentConversation option \<Rightarrow> (Conversation list \<times> CurrentConversation option) option" where
  "group_entries h prevEntry [] conversations currentConversation =
     Some (conversations, currentConversation)"
| "group_entries h prevEntry (entry # rest) conversations currentConversation =
     (if shouldStartNew currentConversation prevEntry entry
      then (case push_conversation h conversations currentConversation of
              None \<Rightarrow> None
            | Some conversations' \<Rightarrow>
                group_entries h (Some entry) rest conversations'
                  (Some \<lparr>startRank_cur = chat_rank entry, entries_cur = [entry],
                         sessionId_cur = ''conv_'' @ number_toString (chat_rank entry)\<rparr>))
      else (case currentConversation of
              None \<Rightarrow> None
            | Some c \<Rightarrow>
                group_entries h (Some entry) rest conversations
                  (Some (c\<lparr>entries_cur := entries_cur c @ [entry]\<rparr>))))"

text \<open>The \<^verbatim>\<open>catch\<close> of \<^verbatim>\<open>fetchConversations\<close> turns every exception into the empty list.\<close>

definition fetchConversations :: "host \<Rightarrow> link \<Rightarrow> database \<Rightarrow> string \<Rightarrow> Conversation list" where
  "fetchConversations h l db userId =
     (case select_user_history l db userId of
        Inl error \<Rightarrow> []
      | Inr chatHistory \<Rightarrow>
          if chatHistory = [] then []
          else (case group_entries h None chatHistory [] None of
                  None \<Rightarrow> []
                | Some (conversations, currentConversation) \<Rightarrow>
                    (case push_conversation h conversations currentConversation of
                       None \<Rightarrow> []
                     | Some conversations' \<Rightarrow> rev conversations')))"

text \<open>
  The \<^verbatim>\<open>for ... of\<close> loop of \<^verbatim>\<open>getConversationMessages\<close>: entries are taken while their
  rank is the expected one, and the first other rank ends the loop.
\<close>

fun continuous_entries :: "DbChatHistory list \<Rightarrow> int \<Rightarrow> DbChatHistory list \<Rightarrow> DbChatHistory list" where
  "continuous_entries [] expectedRank conversationEntries = conversationEntries"
| "continuous_entries (entry # rest) expectedRank conversationEntries =
     (if chat_rank entry = expectedRank
      then continuous_entries rest (expectedRank + 1) (conversationEntries @ [entry])
      else conversationEntries)"

definition getConversationMessages :: "host \<Rightarrow> link \<Rightarrow> database \<Rightarrow> string \<Rightarrow> Message list" where
  "getConversationMessages h l db conversationId =
     (case token_rank conversationId of
        None \<Rightarrow> []
      | Some startRank \<Rightarrow>
          (case select_history_from l db startRank of
             Inl fetchError \<Rightarrow> []
           | Inr entries \<Rightarrow>
               if entries = [] then []
               else foldl (push_entry_messages h) [] (continuous_entries entries startRank [])))"

section \<open>Deleting a conversation\<close>

text \<open>
  The loop that finds \<^verbatim>\<open>endRank\<close>, over the ranks of the fetched rows from index \<open>i\<close> on:
  \<^verbatim>\<open>
  if (entries[i].chat_rank === endRank) {
    if (i + 1 < entries.length && entries[i + 1].chat_rank === endRank + 1) endRank++;
    else break;
  }
  \<close>
\<close>

fun find_endRank :: "int list \<Rightarrow> int \<Rightarrow> int" where
  "find_endRank [] endRank = endRank"
| "find_endRank (rank # rest) endRank =
     (if rank = endRank
      then (case rest of
              [] \<Rightarrow> endRank
            | next # _ \<Rightarrow> if next = endRank + 1 then find_endRank rest (endRank + 1) else endRank)
      else find_endRank rest endRank)"

text \<open>The result is the returned flag and the store afterwards.\<close>

definition deleteConversation :: "link \<Rightarrow> link \<Rightarrow> database \<Rightarrow> string \<Rightarrow> bool \<times> database" where
  "deleteConversation l1 l2 db conversationId =
     (case token_rank conversationId of
        None \<Rightarrow> (False, db)
      | Some startRank \<Rightarrow>
          (case select_history_from l1 db startRank of
             Inl fetchError \<Rightarrow> (False, db)
           | Inr entries \<Rightarrow>
               if entries = [] then (False, db)
               else (let endRank = find_endRank (map chat_rank entries) startRank
                     in case delete_range l2 db startRank endRank of
                          Inl error \<Rightarrow> (False, db)
                        | Inr db' \<Rightarrow> (True, db'))))"

section \<open>Appending\<close>

text \<open>
  \<^verbatim>\<open>(maxRankData?.chat_rank || 0) + 1\<close>: a missing row and the rank 0 both count as 0.
\<close>

definition next_rank :: "int option \<Rightarrow> int" where
  "next_rank maxRankData = (case maxRankData of None \<Rightarrow> 0 | Some r \<Rightarrow> (if r = 0 then 0 else r)) + 1"

text \<open>The template literal \<^verbatim>\<open>`${userId}${nextRank}`\<close>.\<close>

definition make_chat_id :: "string \<Rightarrow> int \<Rightarrow> string" where
  "make_chat_id userId nextRank = userId @ number_toString nextRank"

definition new_row :: "host \<Rightarrow> string \<Rightarrow> string \<Rightarrow> string \<Rightarrow> string \<Rightarrow> int \<Rightarrow> DbChatHistory" where
  "new_row h chatId userId userRequest aiResponse nextRank =
     \<lparr>chat_id = chatId, user_id = userId, user_request = userRequest, ai_response = aiResponse,
      chat_rank = nextRank, created_at = toISOString_now h, updated_at = toISOString_now h\<rparr>"

text \<open>
  \<^verbatim>\<open>createChatEntry\<close> awaits the store twice: the read of the highest rank, then the insert.
  The store is shared, so the requests of other clients can be served between the two;
  \<open>others\<close> is what they do to the store in that interval (the identity when the caller is
  alone). \<^verbatim>\<open>!currentSessionId\<close> holds for \<^verbatim>\<open>null\<close> and for the empty string. The result is
  the returned id (\<open>None\<close> for \<^verbatim>\<open>null\<close>), the session state and the store afterwards.
\<close>

definition createChatEntry ::
  "host \<Rightarrow> link \<Rightarrow> link \<Rightarrow> (database \<Rightarrow> database) \<Rightarrow> session \<Rightarrow> database \<Rightarrow>
   string \<Rightarrow> string \<Rightarrow> string \<Rightarrow> string option \<times> session \<times> database" where
  "createChatEntry h l1 l2 others s db userId userRequest aiResponse =
     (case select_max_rank l1 db userId of
        Inl rankError \<Rightarrow> (None, s, db)
      | Inr maxRankData \<Rightarrow>
          (let nextRank = next_rank maxRankData;
               chatId = make_chat_id userId nextRank;
               s' = (if currentSessionId s = None \<or> currentSessionId s = Some []
                     then \<lparr>currentSessionId = Some (new_session_id h), currentSessionStartRank = nextRank\<rparr>
                     else s)
           in case insert_row l2 (others db) (new_row h chatId userId userRequest aiResponse nextRank) of
                Inl insertError \<Rightarrow> (None, s', others db)
              | Inr db' \<Rightarrow> (Some chatId, s', db')))"

text \<open>
  The loop of \<^verbatim>\<open>saveCurrentSession\<close> steps through the messages two at a time; a pair that
  is not (user, assistant), or a last message without a partner, is skipped.
\<close>

fun save_pairs :: "host \<Rightarrow> link \<Rightarrow> string \<Rightarrow> Message list \<Rightarrow> int \<Rightarrow> database \<Rightarrow> bool \<times> database" where
  "save_pairs h l userId (userMsg # assistantMsg # rest) nextRank db =
     (if role_msg userMsg = User \<and> role_msg assistantMsg = Assistant
      then (case insert_row l db
                   (new_row h (make_chat_id userId nextRank) userId
                      (content_msg userMsg) (content_msg assistantMsg) nextRank) of
              Inl error \<Rightarrow> (False, db)
            | Inr db' \<Rightarrow> save_pairs h l userId rest (nextRank + 1) db')
      else save_pairs h l userId rest nextRank db)"
| "save_pairs h l userId [userMsg] nextRank db = (True, db)"
| "save_pairs h l userId [] nextRank db = (True, db)"

text \<open>
  \<^verbatim>\<open>saveCurrentSession\<close> destructures only \<^verbatim>\<open>data\<close> from the read of the highest rank:
  \<^verbatim>\<open>const { data: maxRankData } = await supabase...\<close>. When the read fails \<^verbatim>\<open>data\<close> is
  \<^verbatim>\<open>null\<close>, and the function goes on.
\<close>

definition saveCurrentSession ::
  "host \<Rightarrow> link \<Rightarrow> link \<Rightarrow> database \<Rightarrow> string \<Rightarrow> Message list \<Rightarrow> bool \<times> database" where
  "saveCurrentSession h l1 l2 db userId messages =
     (if messages = [] then (True, db)
      else (let nonDefaultMessages =
                  filter (\<lambda>m. \<not> (content_msg m = ''Who are you?'' \<or>
                                     includes_str (content_msg m) ''I am Brother's AI'')) messages
            in if nonDefaultMessages = [] then (True, db)
               else (let maxRankData = (case select_max_rank l1 db userId of
                                          Inl e \<Rightarrow> None
                                        | Inr d \<Rightarrow> d)
                     in save_pairs h l2 userId nonDefaultMessages (next_rank maxRankData) db)))"

section \<open>Notions used to state the properties\<close>

text \<open>A user id whose last character is a decimal digit.\<close>

definition ends_in_digit :: "string \<Rightarrow> bool" where
  "ends_in_digit u = (u \<noteq> [] \<and> is_digit (last u))"

text \<open>
  The runs of a log: \<open>runs_from cur es\<close> are the entry lists that \<^verbatim>\<open>fetchConversations\<close>
  hands to \<^verbatim>\<open>createConversationFromEntries\<close> when \<^verbatim>\<open>currentConversation.entries\<close> is
  \<open>cur\<close> and the entries \<open>es\<close> are still to come.
\<close>

fun runs_from :: "DbChatHistory list \<Rightarrow> DbChatHistory list \<Rightarrow> DbChatHistory list list" where
  "runs_from cur [] = [cur]"
| "runs_from cur (e # es) =
     (if chat_rank e \<noteq> chat_rank (last cur) + 1 then cur # runs_from [e] es
      else runs_from (cur @ [e]) es)"

definition segment_runs :: "DbChatHistory list \<Rightarrow> DbChatHistory list list" where
  "segment_runs chatHistory = (case chatHistory of [] \<Rightarrow> [] | e # es \<Rightarrow> runs_from [e] es)"

text \<open>The \<^verbatim>\<open>currentConversation\<close> object that holds a run, and the conversation made of it.\<close>

definition current_of :: "DbChatHistory list \<Rightarrow> CurrentConversation" where
  "current_of run =
     \<lparr>startRank_cur = chat_rank (hd run), entries_cur = run,
      sessionId_cur = ''conv_'' @ number_toString (chat_rank (hd run))\<rparr>"

definition conversation_of :: "host \<Rightarrow> DbChatHistory list \<Rightarrow> Conversation" where
  "conversation_of h run = conversation_from h (current_of run) (hd run) (last run)"

text \<open>The positions of a log at which a run starts, by the rule of \<^verbatim>\<open>shouldStartNew\<close>.\<close>

definition run_starts :: "DbChatHistory list \<Rightarrow> nat list" where
  "run_starts chatHistory =
     filter (\<lambda>i. i = 0 \<or> chat_rank (chatHistory ! i) \<noteq> chat_rank (chatHistory ! (i - 1)) + 1)
       [0..<length chatHistory]"

text \<open>The positions of a log at which the runs of a list of runs begin, counted from \<open>n\<close>.\<close>

fun run_positions :: "nat \<Rightarrow> 'a list list \<Rightarrow> nat list" where
  "run_positions n [] = []"
| "run_positions n (r # rs) = n # run_positions (n + length r) rs"

text \<open>Entries whose ranks are consecutive integers.\<close>

definition consecutive :: "DbChatHistory list \<Rightarrow> bool" where
  "consecutive run = (\<forall>i < length run. chat_rank (run ! i) = chat_rank (run ! 0) + int i)"

text \<open>The two messages of an entry.\<close>

definition user_message :: "host \<Rightarrow> DbChatHistory \<Rightarrow> Message" where
  "user_message h e =
     \<lparr>id_msg = chat_id e @ ''_user'', content_msg = user_request e, role_msg = User,
      timestamp_msg = formatTime h (created_at e), attachments_msg = None\<rparr>"

definition assistant_message :: "host \<Rightarrow> DbChatHistory \<Rightarrow> Message" where
  "assistant_message h e =
     \<lparr>id_msg = chat_id e @ ''_assistant'', content_msg = ai_response e, role_msg = Assistant,
      timestamp_msg = formatTime h (created_at e), attachments_msg = None\<rparr>"

subsection \<open>Example data\<close>

definition example_host :: host where
  "example_host =
     \<lparr>Date_now = 1700000000000, random_suffix = ''k3x9q2m1z'',
      toISOString_now = ''2023-11-14T22:13:20.000Z'',
      formatTime = (\<lambda>iso. take 5 (drop 11 iso)), formatTimestamp = (\<lambda>iso. ''Just now'')\<rparr>"

definition example_row :: "string \<Rightarrow> int \<Rightarrow> DbChatHistory" where
  "example_row userId rank =
     \<lparr>chat_id = make_chat_id userId rank, user_id = userId, user_request = ''Hello!'',
      ai_response = ''Hi! How can I help you today?'', chat_rank = rank,
      created_at = ''2023-11-14T22:13:20.000Z'', updated_at = ''2023-11-14T22:13:20.000Z''\<rparr>"

text \<open>The log of scenario 1 of the specification: the ranks 1, 2, 3, 5, 6 of one user.\<close>

definition example_db :: database where
  "example_db =
     \<lparr>users = [''u''],
      chat_history = map (example_row ''u'') [1, 2, 3, 5, 6]\<rparr>"

text \<open>Two users: alice has one entry, bob has two.\<close>

definition two_user_db :: database where
  "two_user_db =
     \<lparr>users = [''alice'', ''bob''],
      chat_history = [example_row ''alice'' 1, example_row ''bob'' 1, example_row ''bob'' 2]\<rparr>"

text \<open>
  Scenario 4 of the specification: the highest rank of the user is 3, and a second client
  of the same user appends between the read and the insert of the first.
\<close>

definition three_entry_db :: database where
  "three_entry_db = \<lparr>users = [''u''], chat_history = map (example_row ''u'') [1, 2, 3]\<rparr>"

definition other_client :: "database \<Rightarrow> database" where
  "other_client db =
     snd (snd (createChatEntry example_host Up Up (\<lambda>d. d) initial_session db
                 ''u'' ''from the other tab'' ''ok''))"

text \<open>A log whose first conversation has been deleted, and a session of one exchange.\<close>

definition after_delete_db :: database where
  "after_delete_db = \<lparr>users = [''u''], chat_history = map (example_row ''u'') [2, 3]\<rparr>"

definition example_messages :: "Message list" where
  "example_messages =
     [\<lparr>id_msg = ''msg_1'', content_msg = ''What is HOL?'', role_msg = User,
       timestamp_msg = ''10:00'', attachments_msg = None\<rparr>,
      \<lparr>id_msg = ''msg_2'', content_msg = ''A higher-order logic.'', role_msg = Assistant,
       timestamp_msg = ''10:00'', attachments_msg = None\<rparr>]"

section \<open>Decimal numbers and tokens\<close>

lemma digit_char_is_digit: "d < 10 \<Longrightarrow> is_digit (digit_char d)"
  unfolding is_digit_def digit_char_def
  by (simp add: nth_Cons')

lemma digit_value_digit_char: "d < 10 \<Longrightarrow> digit_value (digit_char d) = d"
proof -
  assume "d < 10"
  then consider "d = 0" | "d = 1" | "d = 2" | "d = 3" | "d = 4" | "d = 5" | "d = 6" | "d = 7" | "d = 8" | "d = 9"
    by atomize_elim arith
  then show ?thesis
    by cases (simp_all add: digit_value_def digit_char_def)
qed

lemma nat_toString_digits: "\<forall>c \<in> set (nat_toString n). is_digit c"
proof (induction n rule: nat_toString.induct)
  case (1 n)
  show ?case
  proof (cases "n < 10")
    case True
    then show ?thesis by (simp add: nat_toString.simps [of n] digit_char_is_digit)
  next
    case False
    with 1 show ?thesis by (simp add: nat_toString.simps [of n] digit_char_is_digit)
  qed
qed

lemma nat_toString_not_Nil: "nat_toString n \<noteq> []"
  by (simp add: nat_toString.simps [of n])

lemma nat_toString_value: "foldl (\<lambda>a c. 10 * a + digit_value c) 0 (nat_toString n) = n"
proof (induction n rule: nat_toString.induct)
  case (1 n)
  show ?case
  proof (cases "n < 10")
    case True
    then show ?thesis by (simp add: nat_toString.simps [of n] digit_value_digit_char)
  next
    case False
    with 1 show ?thesis by (simp add: nat_toString.simps [of n] digit_value_digit_char)
  qed
qed

lemma is_digit_not_space: "is_digit c \<Longrightarrow> \<not> is_space c"
  by (auto simp: is_digit_def is_space_def)

lemma is_digit_not_sign: "is_digit c \<Longrightarrow> c \<noteq> CHR ''-'' \<and> c \<noteq> CHR ''+''"
  by (auto simp: is_digit_def)

lemma minus_not_space: "\<not> is_space CHR ''-''"
  by (simp add: is_space_def)

lemma takeWhile_all: "\<forall>c \<in> set xs. P c \<Longrightarrow> takeWhile P xs = xs"
  by (simp add: takeWhile_eq_all_conv)

lemma parseInt_nat_toString: "parseInt (nat_toString n) = Some (int n)"
proof -
  obtain c cs where eq: "nat_toString n = c # cs"
    using nat_toString_not_Nil [of n] by (cases "nat_toString n") auto
  have dig: "\<forall>x \<in> set (c # cs). is_digit x"
    using nat_toString_digits [of n] eq by simp
  then have c: "is_digit c" by simp
  have v: "foldl (\<lambda>a c. 10 * a + digit_value c) 0 (c # cs) = n"
    using nat_toString_value [of n] eq by simp
  show ?thesis
    unfolding parseInt_def eq using c is_digit_not_space [OF c] is_digit_not_sign [OF c] dig v
    by (simp add: Let_def takeWhile_all)
qed

text \<open>Reading back a printed rank gives the rank.\<close>

lemma parseInt_number_toString: "parseInt (number_toString n) = Some n"
proof (cases "n < 0")
  case False
  then show ?thesis by (simp add: number_toString_def parseInt_nat_toString)
next
  case True
  obtain c cs where eq: "nat_toString (nat (- n)) = c # cs"
    using nat_toString_not_Nil [of "nat (- n)"] by (cases "nat_toString (nat (- n))") auto
  have dig: "\<forall>x \<in> set (c # cs). is_digit x"
    using nat_toString_digits [of "nat (- n)"] eq by simp
  have v: "foldl (\<lambda>a c. 10 * a + digit_value c) 0 (c # cs) = nat (- n)"
    using nat_toString_value [of "nat (- n)"] eq by simp
  show ?thesis
    unfolding parseInt_def number_toString_def eq using True minus_not_space dig v
    by (simp add: Let_def takeWhile_all)
qed

lemma number_toString_inj: "number_toString m = number_toString n \<Longrightarrow> m = n"
  by (metis parseInt_number_toString option.inject)

lemma replace_prefix: "replace (p @ s) p [] = s" if "p \<noteq> []"
  using that by (cases p) simp_all

lemma replace_absent: "pat \<noteq> [] \<Longrightarrow> hd pat \<notin> set s \<Longrightarrow> replace s pat rep = s"
  by (induction s) (auto simp: prefix_def neq_Nil_conv)

lemma number_toString_chars: "c \<in> set (number_toString n) \<Longrightarrow> is_digit c \<or> c = CHR ''-''"
  using nat_toString_digits by (auto simp: number_toString_def split: if_splits)

text \<open>The token \<^verbatim>\<open>`conv_${rank}`\<close> that \<^verbatim>\<open>fetchConversations\<close> issues names that rank.\<close>

lemma token_rank_conv: "token_rank (''conv_'' @ number_toString n) = Some n"
proof -
  have 1: "replace (''conv_'' @ number_toString n) ''conv_'' [] = number_toString n"
    by (rule replace_prefix) simp
  have "CHR ''s'' \<notin> set (number_toString n)"
    using number_toString_chars [of "CHR ''s''" n] by (auto simp: is_digit_def)
  then have 2: "replace (number_toString n) ''session_'' [] = number_toString n"
    by (intro replace_absent) simp_all
  show ?thesis
    unfolding token_rank_def 1 2 by (rule parseInt_number_toString)
qed

section \<open>Entry ids\<close>

lemma digit_suffix_unique:
  assumes "u1 @ s1 = u2 @ s2" "\<forall>c \<in> set s1. is_digit c" "\<forall>c \<in> set s2. is_digit c"
    "\<not> ends_in_digit u1" "\<not> ends_in_digit u2"
  shows "u1 = u2 \<and> s1 = s2"
proof -
  have tw: "takeWhile is_digit (rev s @ rev u) = rev s"
    if "\<forall>c \<in> set s. is_digit c" "\<not> ends_in_digit u" for s u
  proof -
    have "takeWhile is_digit (rev u) = []"
      using that(2) by (cases u rule: rev_cases) (auto simp: ends_in_digit_def)
    moreover have "\<And>x. x \<in> set (rev s) \<Longrightarrow> is_digit x"
      using that(1) by simp
    ultimately show ?thesis
      using takeWhile_append2 [of "rev s" is_digit "rev u"] by simp
  qed
  have "rev s1 @ rev u1 = rev s2 @ rev u2"
    using assms(1) by (metis rev_append)
  then have "takeWhile is_digit (rev s1 @ rev u1) = takeWhile is_digit (rev s2 @ rev u2)"
    by simp
  then have "rev s1 = rev s2"
    using tw [OF assms(2,4)] tw [OF assms(3,5)] by simp
  then have "s1 = s2" by simp
  with assms(1) show ?thesis by simp
qed

text \<open>
  C4, as claimed: two entries with distinct (userId, rank) pairs have distinct ids. The id is
  the user id followed at once by the decimal rank, so this fails when a user id ends in a
  digit: the user \<open>user1\<close> at rank 23 and the user \<open>user12\<close> at rank 3 both get \<open>user123\<close>.
\<close>

theorem chat_id_collision:
  "\<not> ((''user1'', 23 :: int) \<noteq> (''user12'', 3) \<longrightarrow>
      make_chat_id ''user1'' 23 \<noteq> make_chat_id ''user12'' 3)"
  by (simp add: make_chat_id_def number_toString_def nat_toString.simps digit_char_def)

text \<open>
  C4, amended: the ids of one user at two distinct ranks are distinct; and the ids of two
  distinct (userId, rank) pairs are distinct when the ranks are not negative and neither
  user id ends in a decimal digit.
\<close>

theorem chat_id_distinct:
  "(r1 \<noteq> r2 \<longrightarrow> make_chat_id u r1 \<noteq> make_chat_id u r2) \<and>
   (0 \<le> r1 \<and> 0 \<le> r2 \<and> \<not> ends_in_digit u1 \<and> \<not> ends_in_digit u2 \<and> (u1, r1) \<noteq> (u2, r2) \<longrightarrow>
      make_chat_id u1 r1 \<noteq> make_chat_id u2 r2)"
proof (intro conjI impI)
  assume "r1 \<noteq> r2"
  then show "make_chat_id u r1 \<noteq> make_chat_id u r2"
    using number_toString_inj by (auto simp: make_chat_id_def)
next
  assume a: "0 \<le> r1 \<and> 0 \<le> r2 \<and> \<not> ends_in_digit u1 \<and> \<not> ends_in_digit u2 \<and> (u1, r1) \<noteq> (u2, r2)"
  show "make_chat_id u1 r1 \<noteq> make_chat_id u2 r2"
  proof
    assume "make_chat_id u1 r1 = make_chat_id u2 r2"
    then have eq: "u1 @ number_toString r1 = u2 @ number_toString r2"
      by (simp add: make_chat_id_def)
    have d1: "\<forall>c \<in> set (number_toString r1). is_digit c"
      using a nat_toString_digits by (simp add: number_toString_def)
    have d2: "\<forall>c \<in> set (number_toString r2). is_digit c"
      using a nat_toString_digits by (simp add: number_toString_def)
    from digit_suffix_unique [OF eq d1 d2] a
    have "u1 = u2 \<and> number_toString r1 = number_toString r2" by simp
    with a show False using number_toString_inj by auto
  qed
qed

theorem chat_id_distinct_witness:
  "make_chat_id ''ann@example.com'' 1 \<noteq> make_chat_id ''ann@example.com'' 12 \<and>
   make_chat_id ''ann@example.com'' 1 \<noteq> make_chat_id ''ann@example.co'' 12"
  using chat_id_distinct [of 1 12 "''ann@example.com''" "''ann@example.com''" "''ann@example.co''"]
  by (simp add: ends_in_digit_def is_digit_def)

section \<open>Evaluating the examples\<close>

lemmas store_defs = select_max_rank_def select_user_history_def select_history_from_def
  user_history_def history_from_def insert_row_def delete_range_def fits_integer_def valid_text_def

lemmas example_defs = example_row_def example_db_def two_user_db_def three_entry_db_def
  after_delete_db_def example_messages_def

lemma make_chat_id_simps:
  "make_chat_id u 1 = u @ ''1''" "make_chat_id u 2 = u @ ''2''" "make_chat_id u 3 = u @ ''3''"
  "make_chat_id u 4 = u @ ''4''" "make_chat_id u 5 = u @ ''5''" "make_chat_id u 6 = u @ ''6''"
  by (simp_all add: make_chat_id_def number_toString_def nat_toString.simps digit_char_def)

lemma token_rank_conv_1: "token_rank ''conv_1'' = Some 1"
  using token_rank_conv [of 1] by (simp add: number_toString_def nat_toString.simps digit_char_def)

lemma select_max_rank_three: "select_max_rank Up three_entry_db ''u'' = Inr (Some 3)"
  by (simp add: example_defs store_defs)

lemma other_client_three:
  "other_client three_entry_db =
     three_entry_db\<lparr>chat_history := chat_history three_entry_db @
        [new_row example_host ''u4'' ''u'' ''from the other tab'' ''ok'' 4]\<rparr>"
  unfolding other_client_def createChatEntry_def select_max_rank_three
  by (simp add: Let_def next_rank_def make_chat_id_simps insert_row_def new_row_def
      three_entry_db_def example_row_def fits_integer_def valid_text_def)

section \<open>The session tracker\<close>

lemma startNewSession_anchor:
  "currentSessionStartRank (snd (startNewSession h s)) = currentSessionStartRank s"
  by (simp add: startNewSession_def)

lemma clearCurrentSession_anchor: "currentSessionStartRank (clearCurrentSession s) = 0"
  by (simp add: clearCurrentSession_def)

text \<open>
  C9, as claimed: every call of \<^verbatim>\<open>startNewSession()\<close> generates a fresh session id, resets
  the anchor rank \<^verbatim>\<open>currentSessionStartRank\<close> to the unset value and returns the id, so that
  the anchor rank of a conversation attached before is no longer in effect. The function
  generates and returns the id, but it assigns \<^verbatim>\<open>currentSessionId\<close> only: after
  \<^verbatim>\<open>setCurrentSession('conv_5', 5)\<close> a call of \<^verbatim>\<open>startNewSession()\<close> leaves
  \<^verbatim>\<open>currentSessionStartRank\<close> at 5. \<^verbatim>\<open>clearCurrentSession\<close> and the session that
  \<^verbatim>\<open>createChatEntry\<close> starts by itself both set the rank together with the id.
\<close>

theorem startNewSession_keeps_anchor:
  "fst (startNewSession example_host (setCurrentSession ''conv_5'' 5 initial_session)) =
     new_session_id example_host \<and>
   currentSessionId (snd (startNewSession example_host (setCurrentSession ''conv_5'' 5 initial_session))) =
     Some (new_session_id example_host) \<and>
   currentSessionStartRank
     (snd (startNewSession example_host (setCurrentSession ''conv_5'' 5 initial_session))) = 5"
  by (simp add: startNewSession_def setCurrentSession_def)

section \<open>Appending\<close>

text \<open>When the read of the highest rank fails, \<^verbatim>\<open>createChatEntry\<close> returns \<^verbatim>\<open>null\<close> and inserts nothing.\<close>

lemma createChatEntry_failed_read:
  "createChatEntry h Down l2 others s db userId userRequest aiResponse = (None, s, db)"
  by (simp add: createChatEntry_def select_max_rank_def)

text \<open>
  C3, as claimed: whenever the read of the highest rank fails, both append paths propagate
  the failure and insert nothing, and none falls back to rank 1. \<^verbatim>\<open>createChatEntry\<close> does
  so (\<open>createChatEntry_failed_read\<close>). \<^verbatim>\<open>saveCurrentSession\<close> does not: it never looks at
  the error of the read, takes the missing data for "no rows", and inserts at rank 1. On a
  log that holds the ranks 2 and 3 the pair is stored at rank 1, in front of the existing
  conversation, and the call returns \<^verbatim>\<open>true\<close>.
\<close>

theorem saveCurrentSession_inserts_after_failed_read:
  "saveCurrentSession example_host Down Up after_delete_db ''u'' example_messages =
     (True, after_delete_db\<lparr>chat_history := chat_history after_delete_db @
        [new_row example_host ''u1'' ''u'' ''What is HOL?'' ''A higher-order logic.'' 1]\<rparr>)"
  by (simp add: saveCurrentSession_def example_defs store_defs make_chat_id_simps next_rank_def new_row_def)

text \<open>
  C2, as claimed: after a collision \<^verbatim>\<open>createChatEntry\<close> fetches the rank again and retries,
  so that a single collision ends with the entry stored. In scenario 4 both clients read
  the highest rank 3; the other client stores rank 4; the insert of this client is
  rejected, and \<^verbatim>\<open>createChatEntry\<close> returns \<^verbatim>\<open>null\<close> with nothing stored.
\<close>

theorem createChatEntry_gives_up:
  "fst (createChatEntry example_host Up Up other_client initial_session three_entry_db
          ''u'' ''question'' ''answer'') = None \<and>
   snd (snd (createChatEntry example_host Up Up other_client initial_session three_entry_db
          ''u'' ''question'' ''answer'')) = other_client three_entry_db"
  unfolding createChatEntry_def select_max_rank_three other_client_three
  by (simp add: Let_def next_rank_def make_chat_id_simps insert_row_def new_row_def
      three_entry_db_def example_row_def fits_integer_def valid_text_def)

text \<open>
  C2, amended: \<^verbatim>\<open>createChatEntry\<close> makes one insert attempt and never retries. Whenever the
  store, at the time of the insert, already holds a row of the user at the rank computed
  from the read, the call returns \<^verbatim>\<open>null\<close> and leaves the store as the other clients left it.
\<close>

theorem createChatEntry_collision_fails:
  assumes "select_max_rank Up db userId = Inr m"
    and "row \<in> set (chat_history (others db))"
    and "user_id row = userId"
    and "chat_rank row = next_rank m"
  shows "fst (createChatEntry h Up Up others s db userId userRequest aiResponse) = None \<and>
         snd (snd (createChatEntry h Up Up others s db userId userRequest aiResponse)) = others db"
proof -
  let ?new = "new_row h (make_chat_id userId (next_rank m)) userId userRequest aiResponse (next_rank m)"
  have "list_ex (\<lambda>r. chat_id r = chat_id ?new \<or> (user_id r = user_id ?new \<and> chat_rank r = chat_rank ?new))
          (chat_history (others db))"
    unfolding list_ex_iff using assms(2-4) by (auto simp: new_row_def)
  then have "\<exists>e. insert_row Up (others db) ?new = Inl e"
    by (simp add: insert_row_def)
  then obtain e where "insert_row Up (others db) ?new = Inl e"
    by blast
  then show ?thesis
    using assms(1) by (simp add: createChatEntry_def Let_def)
qed

theorem createChatEntry_collision_fails_witness:
  "select_max_rank Up three_entry_db ''u'' = Inr (Some 3) \<and>
   new_row example_host ''u4'' ''u'' ''from the other tab'' ''ok'' 4
     \<in> set (chat_history (other_client three_entry_db)) \<and>
   fst (createChatEntry example_host Up Up other_client initial_session three_entry_db
          ''u'' ''a second question'' ''a second answer'') = None \<and>
   snd (snd (createChatEntry example_host Up Up other_client initial_session three_entry_db
          ''u'' ''a second question'' ''a second answer'')) = other_client three_entry_db"
proof -
  have 1: "new_row example_host ''u4'' ''u'' ''from the other tab'' ''ok'' 4
             \<in> set (chat_history (other_client three_entry_db))"
    unfolding other_client_three by simp
  have 2: "user_id (new_row example_host ''u4'' ''u'' ''from the other tab'' ''ok'' 4) = ''u''"
    by (simp add: new_row_def)
  have 3: "chat_rank (new_row example_host ''u4'' ''u'' ''from the other tab'' ''ok'' 4) = next_rank (Some 3)"
    by (simp add: new_row_def next_rank_def)
  show ?thesis
    using createChatEntry_collision_fails
            [where db = three_entry_db and others = other_client, OF select_max_rank_three 1 2 3]
          select_max_rank_three 1
    by simp
qed

section \<open>Deleting a conversation\<close>

text \<open>
  C1, as claimed: for the token of a conversation of user \<open>u\<close> that starts at rank \<open>r\<close>,
  \<^verbatim>\<open>deleteConversation\<close> removes exactly the rows of \<open>u\<close> in the contiguous run from \<open>r\<close> and
  leaves every other row unchanged, the rows of all other users among them. Neither of
  the two queries of the function names a user. When alice, whose only entry has rank 1,
  deletes her conversation \<open>conv_1\<close>, the entry of bob at rank 1 is deleted with it; of the
  three rows only the rank 2 of bob is left. (Which of the two rows of rank 1 the store
  lists first does not matter: the ranks read are 1, 1, 2 either way.)
\<close>

theorem deleteConversation_crosses_users:
  "deleteConversation Up Up two_user_db ''conv_1'' =
     (True, two_user_db\<lparr>chat_history := [example_row ''bob'' 2]\<rparr>)"
  by (simp add: deleteConversation_def token_rank_conv_1 example_defs store_defs)

section \<open>Segmenting the log\<close>

subsection \<open>The loop of \<^verbatim>\<open>fetchConversations\<close> computes the runs\<close>

lemma foldl_push:
  "foldl (push_entry_messages h) acc es =
     acc @ concat (map (\<lambda>e. [user_message h e, assistant_message h e]) es)"
  by (induction es arbitrary: acc)
     (simp_all add: push_entry_messages_def user_message_def assistant_message_def)

lemma create_current_of:
  "run \<noteq> [] \<Longrightarrow> createConversationFromEntries h (current_of run) = Some (conversation_of h run)"
  by (cases run) (simp_all add: createConversationFromEntries_def conversation_of_def current_of_def)

lemma push_current_of:
  "run \<noteq> [] \<Longrightarrow>
   push_conversation h convs (Some (current_of run)) = Some (convs @ [conversation_of h run])"
  by (simp add: push_conversation_def create_current_of) (simp add: current_of_def)

lemma current_of_single:
  "current_of [e] =
     \<lparr>startRank_cur = chat_rank e, entries_cur = [e],
      sessionId_cur = ''conv_'' @ number_toString (chat_rank e)\<rparr>"
  by (simp add: current_of_def)

lemma push_conversation_None: "push_conversation h convs None = Some convs"
  by (simp add: push_conversation_def)

lemma current_of_snoc:
  "cur \<noteq> [] \<Longrightarrow> (current_of cur)\<lparr>entries_cur := entries_cur (current_of cur) @ [e]\<rparr> = current_of (cur @ [e])"
  by (simp add: current_of_def)

lemma group_entries_runs:
  "cur \<noteq> [] \<Longrightarrow>
   \<exists>cs cc. group_entries h (Some (last cur)) es convs (Some (current_of cur)) = Some (cs, cc) \<and>
           push_conversation h cs cc = Some (convs @ map (conversation_of h) (runs_from cur es))"
proof (induction es arbitrary: cur convs)
  case Nil
  then show ?case by (simp add: push_current_of)
next
  case (Cons e es)
  show ?case
  proof (cases "chat_rank e \<noteq> chat_rank (last cur) + 1")
    case True
    from Cons.IH [of "[e]" "convs @ [conversation_of h cur]"]
    obtain cs cc where
      "group_entries h (Some e) es (convs @ [conversation_of h cur]) (Some (current_of [e])) = Some (cs, cc)"
      "push_conversation h cs cc =
         Some ((convs @ [conversation_of h cur]) @ map (conversation_of h) (runs_from [e] es))"
      by auto
    with True Cons.prems show ?thesis
      by (simp add: shouldStartNew_def push_current_of current_of_single)
  next
    case False
    from Cons.IH [of "cur @ [e]" convs]
    obtain cs cc where
      "group_entries h (Some e) es convs (Some (current_of (cur @ [e]))) = Some (cs, cc)"
      "push_conversation h cs cc = Some (convs @ map (conversation_of h) (runs_from (cur @ [e]) es))"
      by auto
    with False Cons.prems show ?thesis
      by (simp add: shouldStartNew_def current_of_snoc)
  qed
qed

text \<open>
  \<^verbatim>\<open>fetchConversations\<close> never runs into its \<^verbatim>\<open>catch\<close>: it returns one conversation for
  each run of the log, the last run first.
\<close>

lemma fetchConversations_runs:
  "fetchConversations h Up db userId =
     rev (map (conversation_of h) (segment_runs (user_history db userId)))"
proof (cases "user_history db userId")
  case Nil
  then show ?thesis
    by (simp add: fetchConversations_def select_user_history_def segment_runs_def)
next
  case (Cons e es)
  from group_entries_runs [of "[e]" h es "[]"]
  obtain cs cc where
    "group_entries h (Some e) es [] (Some (current_of [e])) = Some (cs, cc)"
    "push_conversation h cs cc = Some (map (conversation_of h) (runs_from [e] es))"
    by auto
  with Cons show ?thesis
    by (simp add: fetchConversations_def select_user_history_def segment_runs_def
        shouldStartNew_def push_conversation_None current_of_single)
qed

lemma fetchConversations_Down: "fetchConversations h Down db userId = []"
  by (simp add: fetchConversations_def select_user_history_def)

lemma startRank_conversation_of: "startRank_conv (conversation_of h r) = chat_rank (hd r)"
  by (simp add: conversation_of_def conversation_from_def current_of_def)

lemma messages_conversation_of:
  "messages_conv (conversation_of h r) = concat (map (\<lambda>e. [user_message h e, assistant_message h e]) r)"
  by (simp add: conversation_of_def conversation_from_def current_of_def foldl_push)

subsection \<open>Properties of the runs\<close>

lemma concat_runs_from: "concat (runs_from cur es) = cur @ es"
  by (induction es arbitrary: cur) simp_all

lemma runs_from_not_Nil: "cur \<noteq> [] \<Longrightarrow> [] \<notin> set (runs_from cur es)"
  by (induction es arbitrary: cur) auto

lemma concat_segment_runs: "concat (segment_runs es) = es"
  by (cases es) (simp_all add: segment_runs_def concat_runs_from)

lemma segment_runs_not_Nil: "[] \<notin> set (segment_runs es)"
  by (cases es) (simp_all add: segment_runs_def runs_from_not_Nil)

lemma consecutiveD:
  "consecutive run \<Longrightarrow> i < length run \<Longrightarrow> chat_rank (run ! i) = chat_rank (run ! 0) + int i"
  unfolding consecutive_def by blast

lemma consecutive_snoc:
  assumes "consecutive cur" "cur \<noteq> []" "chat_rank e = chat_rank (last cur) + 1"
  shows "consecutive (cur @ [e])"
proof -
  have pos: "0 < length cur" using assms(2) by simp
  have "last cur = cur ! (length cur - 1)"
    using assms(2) by (rule last_conv_nth)
  then have "chat_rank (last cur) = chat_rank (cur ! 0) + int (length cur - 1)"
    using consecutiveD [OF assms(1), of "length cur - 1"] pos by simp
  then have e: "chat_rank e = chat_rank (cur ! 0) + int (length cur)"
    using assms(3) pos by (simp add: of_nat_diff)
  have step: "chat_rank ((cur @ [e]) ! i) = chat_rank ((cur @ [e]) ! 0) + int i"
    if "i < Suc (length cur)" for i
  proof (cases "i < length cur")
    case True
    then show ?thesis using consecutiveD [OF assms(1), of i] pos by (simp add: nth_append)
  next
    case False
    with that have "i = length cur" by simp
    then show ?thesis using e pos by (simp add: nth_append)
  qed
  show ?thesis
    unfolding consecutive_def
  proof (intro allI impI)
    fix i assume "i < length (cur @ [e])"
    then have "i < Suc (length cur)" by simp
    then show "chat_rank ((cur @ [e]) ! i) = chat_rank ((cur @ [e]) ! 0) + int i"
      by (rule step)
  qed
qed

lemma consecutive_single: "consecutive [e]"
  by (simp add: consecutive_def)

lemma runs_from_consecutive:
  "cur \<noteq> [] \<Longrightarrow> consecutive cur \<Longrightarrow> \<forall>r \<in> set (runs_from cur es). consecutive r"
proof (induction es arbitrary: cur)
  case Nil
  then show ?case by simp
next
  case (Cons e es)
  then show ?case
    using consecutive_snoc [of cur e] consecutive_single [of e] by auto
qed

lemma segment_runs_consecutive: "r \<in> set (segment_runs es) \<Longrightarrow> consecutive r"
  using runs_from_consecutive [OF _ consecutive_single]
  by (cases es) (auto simp: segment_runs_def)

lemma consecutive_ranks:
  assumes "consecutive r"
  shows "map chat_rank r = map (\<lambda>i. chat_rank (r ! 0) + int i) [0..<length r]"
proof (rule nth_equalityI)
  show "length (map chat_rank r) = length (map (\<lambda>i. chat_rank (r ! 0) + int i) [0..<length r])"
    by simp
next
  fix i assume "i < length (map chat_rank r)"
  then have i: "i < length r" by simp
  from consecutiveD [OF assms i]
  show "map chat_rank r ! i = map (\<lambda>i. chat_rank (r ! 0) + int i) [0..<length r] ! i"
    using i by simp
qed

text \<open>Where the runs start.\<close>

lemma upt_0_Suc: "[0..<Suc n] = 0 # map Suc [0..<n]"
  by (simp add: upt_conv_Cons map_Suc_upt del: upt_Suc)

lemma filter_upt_0_Suc:
  "filter P [0..<Suc n] = (if P 0 then [0] else []) @ map Suc (filter (\<lambda>i. P (Suc i)) [0..<n])"
  unfolding upt_0_Suc by (simp add: filter_map comp_def)

lemma runs_from_starts:
  "cur \<noteq> [] \<Longrightarrow>
   map (\<lambda>r. chat_rank (hd r)) (runs_from cur es) =
     chat_rank (hd cur) #
     map (\<lambda>i. chat_rank (es ! i))
       (filter (\<lambda>i. chat_rank (es ! i) \<noteq> chat_rank ((last cur # es) ! i) + 1) [0..<length es])"
proof (induction es arbitrary: cur)
  case Nil
  then show ?case by simp
next
  case (Cons e es)
  have len: "[0..<length (e # es)] = [0..<Suc (length es)]" by simp
  show ?case
  proof (cases "chat_rank e \<noteq> chat_rank (last cur) + 1")
    case True
    then show ?thesis
      unfolding len filter_upt_0_Suc using Cons.IH [of "[e]"]
      by (simp add: comp_def)
  next
    case False
    then show ?thesis
      unfolding len filter_upt_0_Suc using Cons.IH [of "cur @ [e]"] Cons.prems
      by (simp add: comp_def)
  qed
qed

lemma segment_runs_starts:
  "map (\<lambda>r. chat_rank (hd r)) (segment_runs es) = map (\<lambda>i. chat_rank (es ! i)) (run_starts es)"
proof (cases es)
  case Nil
  then show ?thesis by (simp add: segment_runs_def run_starts_def)
next
  case (Cons e es')
  have len: "[0..<length (e # es')] = [0..<Suc (length es')]" by simp
  show ?thesis
    unfolding Cons run_starts_def len filter_upt_0_Suc
    using runs_from_starts [of "[e]" es']
    by (simp add: segment_runs_def comp_def)
qed

lemma runs_from_positions:
  "run_positions n (runs_from cur es) =
     n # map (\<lambda>i. n + length cur + i)
           (filter (\<lambda>i. chat_rank (es ! i) \<noteq> chat_rank ((last cur # es) ! i) + 1) [0..<length es])"
proof (induction es arbitrary: cur n)
  case Nil
  then show ?case by simp
next
  case (Cons e es)
  have len: "[0..<length (e # es)] = [0..<Suc (length es)]" by simp
  show ?case
  proof (cases "chat_rank e \<noteq> chat_rank (last cur) + 1")
    case True
    then show ?thesis
      unfolding len filter_upt_0_Suc using Cons.IH [of "n + length cur" "[e]"]
      by (simp add: comp_def)
  next
    case False
    then show ?thesis
      unfolding len filter_upt_0_Suc using Cons.IH [of n "cur @ [e]"]
      by (simp add: comp_def)
  qed
qed

lemma segment_runs_positions: "run_positions 0 (segment_runs es) = run_starts es"
proof (cases es)
  case Nil
  then show ?thesis by (simp add: segment_runs_def run_starts_def)
next
  case (Cons e es')
  have len: "[0..<length (e # es')] = [0..<Suc (length es')]" by simp
  show ?thesis
    unfolding Cons run_starts_def len filter_upt_0_Suc
    using runs_from_positions [of 0 "[e]" es']
    by (simp add: segment_runs_def comp_def)
qed

lemma sorted_user_history: "sorted (map chat_rank (user_history db userId))"
  by (simp add: user_history_def)

lemma sorted_run_start_ranks:
  assumes "sorted (map chat_rank es)"
  shows "sorted (map (\<lambda>i. chat_rank (es ! i)) (run_starts es))"
proof -
  have "sorted_wrt (\<lambda>a b. chat_rank (es ! a) \<le> chat_rank (es ! b)) (run_starts es)"
  proof (rule sorted_wrt_mono_rel [of _ "(\<le>)"])
    show "sorted_wrt (\<le>) (run_starts es)"
      unfolding run_starts_def by (rule sorted_filter [of "\<lambda>x. x", simplified]) simp
  next
    fix a b assume "a \<in> set (run_starts es)" "b \<in> set (run_starts es)" "a \<le> b"
    then have "a \<le> b" "b < length (map chat_rank es)"
      by (simp_all add: run_starts_def)
    from sorted_nth_mono [OF assms this]
    show "chat_rank (es ! a) \<le> chat_rank (es ! b)"
      using \<open>a \<le> b\<close> \<open>b < length (map chat_rank es)\<close> by simp
  qed
  then show ?thesis by (simp add: sorted_wrt_map)
qed

lemma fetchConversations_startRanks:
  "map startRank_conv (fetchConversations h Up db userId) =
     rev (map (\<lambda>i. chat_rank (user_history db userId ! i)) (run_starts (user_history db userId)))"
  unfolding fetchConversations_runs
  by (simp add: rev_map [symmetric] comp_def startRank_conversation_of segment_runs_starts)

text \<open>A run ends at the end of the log or in front of an entry that does not continue it.\<close>

lemma runs_from_maximal:
  "r \<in> set (runs_from cur es) \<Longrightarrow>
   \<exists>pre post. cur @ es = pre @ r @ post \<and>
              (post = [] \<or> chat_rank (hd post) \<noteq> chat_rank (last r) + 1)"
proof (induction es arbitrary: cur)
  case Nil
  then have "cur @ [] = [] @ r @ []" by simp
  then show ?case by blast
next
  case (Cons e es)
  show ?case
  proof (cases "chat_rank e \<noteq> chat_rank (last cur) + 1")
    case True
    with Cons.prems consider "r = cur" | "r \<in> set (runs_from [e] es)" by auto
    then show ?thesis
    proof cases
      case 1
      with True have "cur @ e # es = [] @ r @ (e # es) \<and>
        (e # es = [] \<or> chat_rank (hd (e # es)) \<noteq> chat_rank (last r) + 1)" by simp
      then show ?thesis by blast
    next
      case 2
      from Cons.IH [OF 2] obtain pre post where
        "[e] @ es = pre @ r @ post" "post = [] \<or> chat_rank (hd post) \<noteq> chat_rank (last r) + 1"
        by blast
      then have "cur @ e # es = (cur @ pre) @ r @ post \<and>
        (post = [] \<or> chat_rank (hd post) \<noteq> chat_rank (last r) + 1)" by simp
      then show ?thesis by blast
    qed
  next
    case False
    with Cons.prems have "r \<in> set (runs_from (cur @ [e]) es)" by simp
    from Cons.IH [OF this] show ?thesis by simp
  qed
qed

lemma segment_runs_maximal:
  assumes "r \<in> set (segment_runs es)"
  shows "\<exists>pre post. es = pre @ r @ post \<and>
           (post = [] \<or> chat_rank (hd post) \<noteq> chat_rank (last r) + 1)"
proof (cases es)
  case Nil
  with assms show ?thesis by (simp add: segment_runs_def)
next
  case (Cons e es')
  with assms have "r \<in> set (runs_from [e] es')" by (simp add: segment_runs_def)
  from runs_from_maximal [OF this] Cons show ?thesis by simp
qed

subsection \<open>The walk of \<^verbatim>\<open>getConversationMessages\<close>\<close>

lemma continuous_entries_acc:
  "continuous_entries es x acc = acc @ continuous_entries es x []"
proof (induction es arbitrary: x acc)
  case Nil
  then show ?case by simp
next
  case (Cons e es)
  from Cons [of "x + 1" "acc @ [e]"] Cons [of "x + 1" "[e]"]
  show ?case by simp
qed

lemma continuous_entries_run:
  "map chat_rank r = map (\<lambda>i. x + int i) [0..<length r] \<Longrightarrow>
   post = [] \<or> chat_rank (hd post) \<noteq> x + int (length r) \<Longrightarrow>
   continuous_entries (r @ post) x [] = r"
proof (induction r arbitrary: x)
  case Nil
  then show ?case by (cases post) auto
next
  case (Cons a r)
  have len: "[0..<length (a # r)] = [0..<Suc (length r)]" by simp
  from Cons.prems(1) have a: "chat_rank a = x"
    and r: "map chat_rank r = map (\<lambda>i. (x + 1) + int i) [0..<length r]"
    unfolding len upt_0_Suc by (simp_all add: comp_def add.assoc)
  from Cons.prems(2) have "post = [] \<or> chat_rank (hd post) \<noteq> (x + 1) + int (length r)"
    by (simp add: add.assoc)
  from Cons.IH [OF r this] a show ?case
    using continuous_entries_acc [of "r @ post" "x + 1" "[a]"] by simp
qed

lemma single_user_history:
  assumes "\<forall>row \<in> set (chat_history db). user_id row = u"
  shows "user_history db userId = (if userId = u then sort_key chat_rank (chat_history db) else [])"
  using assms by (auto simp: user_history_def)

lemma single_user_distinct_ranks:
  assumes "idx_chat_history_user_rank db" "\<forall>row \<in> set (chat_history db). user_id row = u"
  shows "distinct (map chat_rank (sort_key chat_rank (chat_history db)))"
proof -
  have "map (\<lambda>r. (user_id r, chat_rank r)) (chat_history db) = map (Pair u) (map chat_rank (chat_history db))"
    using assms(2) by simp
  with assms(1) have "distinct (map (Pair u) (map chat_rank (chat_history db)))"
    by (simp add: idx_chat_history_user_rank_def)
  then have "distinct (map chat_rank (chat_history db))"
    by (auto simp: distinct_map inj_on_def)
  then have "distinct (chat_history db) \<and> inj_on chat_rank (set (chat_history db))"
    by (simp add: distinct_map)
  then show ?thesis by (simp add: distinct_map)
qed

lemma history_from_sorted:
  "history_from db s = filter (\<lambda>r. s \<le> chat_rank r) (sort_key chat_rank (chat_history db))"
  by (simp add: history_from_def filter_sort)

lemma filter_from_run:
  assumes "sorted (map chat_rank (pre @ r @ post))" "distinct (map chat_rank (pre @ r @ post))" "r \<noteq> []"
  shows "filter (\<lambda>x. chat_rank (hd r) \<le> chat_rank x) (pre @ r @ post) = r @ post"
proof -
  obtain a r' where r: "r = a # r'" using assms(3) by (cases r) auto
  have le: "\<forall>x \<in> set pre. chat_rank x \<le> chat_rank a"
    using assms(1) unfolding r by (simp add: sorted_append)
  have nin: "chat_rank a \<notin> chat_rank ` set pre"
    using assms(2) unfolding r by auto
  have ne: "\<forall>x \<in> set pre. chat_rank x \<noteq> chat_rank a"
  proof (intro ballI notI)
    fix x assume "x \<in> set pre" and eq: "chat_rank x = chat_rank a"
    then have "chat_rank x \<in> chat_rank ` set pre" by (intro imageI)
    with eq nin show False by simp
  qed
  have before: "\<not> chat_rank a \<le> chat_rank x" if "x \<in> set pre" for x
    using le ne that by (meson order_antisym)
  have after: "chat_rank a \<le> chat_rank x" if "x \<in> set (r' @ post)" for x
    using assms(1) that unfolding r by (auto simp: sorted_append)
  have 1: "filter (\<lambda>x. chat_rank a \<le> chat_rank x) pre = []"
    using before by (simp add: filter_empty_conv)
  have 2: "filter (\<lambda>x. chat_rank a \<le> chat_rank x) (r' @ post) = r' @ post"
    using after by (simp add: filter_id_conv)
  show ?thesis
    unfolding r using 1 2 by simp
qed

subsection \<open>The example log\<close>

lemma example_history:
  "user_history example_db ''u'' = map (example_row ''u'') [1, 2, 3, 5, 6]"
  by (simp add: user_history_def example_db_def example_row_def)

lemma example_runs:
  "segment_runs (map (example_row ''u'') [1, 2, 3, 5, 6]) =
     [map (example_row ''u'') [1, 2, 3], map (example_row ''u'') [5, 6]]"
  by (simp add: segment_runs_def example_row_def)

lemma example_starts: "run_starts (map (example_row ''u'') [1, 2, 3, 5, 6]) = [0, 3]"
  unfolding segment_runs_positions [symmetric] example_runs by simp

lemma example_fetch:
  "fetchConversations h Up example_db ''u'' =
     [conversation_of h (map (example_row ''u'') [5, 6]),
      conversation_of h (map (example_row ''u'') [1, 2, 3])]"
  unfolding fetchConversations_runs example_history example_runs by simp

lemma pair_messages_nth:
  "i < length es \<Longrightarrow>
   concat (map (\<lambda>e. [f e, g e]) es) ! (2 * i) = f (es ! i) \<and>
   concat (map (\<lambda>e. [f e, g e]) es) ! (2 * i + 1) = g (es ! i)"
proof (induction es arbitrary: i)
  case Nil
  then show ?case by simp
next
  case (Cons e es)
  show ?case
  proof (cases i)
    case 0
    then show ?thesis by simp
  next
    case (Suc j)
    with Cons.prems have "j < length es" by simp
    from Cons.IH [OF this] Suc show ?thesis by simp
  qed
qed

lemma pair_messages_length: "length (concat (map (\<lambda>e. [f e, g e]) es)) = 2 * length es"
  by (induction es) simp_all

lemma concat_map_concat: "concat (map (\<lambda>r. concat (map f r)) rs) = concat (map f (concat rs))"
  by (induction rs) simp_all

subsection \<open>The segmenter\<close>

text \<open>
  C5: the segmenter starts a new run exactly when an entry is the first of the log or its
  rank is not the rank of the previous entry plus 1, and it returns the runs in reverse, so
  that the conversation with the highest start rank comes first. The conversations are
  those of the runs of the log, last run first; the positions at which the runs begin are
  the positions \<open>run_starts\<close> selects by that rule; the start ranks of the conversations are
  the ranks at those positions, from the last to the first, and they descend. The log with
  the ranks 1, 2, 3, 5, 6 of one user gives the conversation that starts at 5, with two
  entries, and then the conversation that starts at 1, with three.
\<close>

theorem fetchConversations_segmentation:
  "fetchConversations h Up db userId =
     rev (map (conversation_of h) (segment_runs (user_history db userId))) \<and>
   run_positions 0 (segment_runs (user_history db userId)) = run_starts (user_history db userId) \<and>
   map startRank_conv (fetchConversations h Up db userId) =
     rev (map (\<lambda>i. chat_rank (user_history db userId ! i)) (run_starts (user_history db userId))) \<and>
   sorted_wrt (\<lambda>a b. b \<le> a) (map startRank_conv (fetchConversations h Up db userId)) \<and>
   fetchConversations h Up example_db ''u'' =
     [conversation_of h (map (example_row ''u'') [5, 6]),
      conversation_of h (map (example_row ''u'') [1, 2, 3])]"
proof (intro conjI)
  show "fetchConversations h Up db userId =
     rev (map (conversation_of h) (segment_runs (user_history db userId)))"
    by (rule fetchConversations_runs)
  show "run_positions 0 (segment_runs (user_history db userId)) = run_starts (user_history db userId)"
    by (rule segment_runs_positions)
  show "map startRank_conv (fetchConversations h Up db userId) =
     rev (map (\<lambda>i. chat_rank (user_history db userId ! i)) (run_starts (user_history db userId)))"
    by (rule fetchConversations_startRanks)
  have "sorted (map (\<lambda>i. chat_rank (user_history db userId ! i)) (run_starts (user_history db userId)))"
    by (rule sorted_run_start_ranks [OF sorted_user_history])
  then show "sorted_wrt (\<lambda>a b. b \<le> a) (map startRank_conv (fetchConversations h Up db userId))"
    unfolding fetchConversations_startRanks by (simp add: sorted_wrt_rev)
  show "fetchConversations h Up example_db ''u'' =
     [conversation_of h (map (example_row ''u'') [5, 6]),
      conversation_of h (map (example_row ''u'') [1, 2, 3])]"
    unfolding fetchConversations_runs example_history example_runs by simp
qed

theorem fetchConversations_segmentation_witness:
  "run_starts (user_history example_db ''u'') = [0, 3] \<and>
   map startRank_conv (fetchConversations example_host Up example_db ''u'') = [5, 1] \<and>
   map (\<lambda>c. length (messages_conv c)) (fetchConversations example_host Up example_db ''u'') = [4, 6]"
proof -
  have 1: "run_starts (user_history example_db ''u'') = [0, 3]"
    unfolding example_history by (rule example_starts)
  from fetchConversations_segmentation [of example_host example_db "''u''"]
  have "map startRank_conv (fetchConversations example_host Up example_db ''u'') =
          rev (map (\<lambda>i. chat_rank (user_history example_db ''u'' ! i)) (run_starts (user_history example_db ''u'')))"
    and "fetchConversations example_host Up example_db ''u'' =
     [conversation_of example_host (map (example_row ''u'') [5, 6]),
      conversation_of example_host (map (example_row ''u'') [1, 2, 3])]"
    by blast+
  then show ?thesis
    unfolding 1 unfolding example_history
    by (simp add: example_row_def messages_conversation_of)
qed

text \<open>
  C6: every entry of the log is placed in exactly one conversation. The runs, put one after
  the other, are the log itself, so each position of the log lies in one run and in one
  only; no run is empty; and the messages of the conversations, oldest conversation first,
  are the messages of the entries of the log in their order. For the empty log the list of
  runs, and with it the result, is empty.
\<close>

theorem fetchConversations_coverage:
  "fetchConversations h Up db userId =
     rev (map (conversation_of h) (segment_runs (user_history db userId))) \<and>
   concat (segment_runs (user_history db userId)) = user_history db userId \<and>
   [] \<notin> set (segment_runs (user_history db userId)) \<and>
   concat (map messages_conv (rev (fetchConversations h Up db userId))) =
     concat (map (\<lambda>e. [user_message h e, assistant_message h e]) (user_history db userId))"
proof (intro conjI)
  show "fetchConversations h Up db userId =
     rev (map (conversation_of h) (segment_runs (user_history db userId)))"
    by (rule fetchConversations_runs)
  show "concat (segment_runs (user_history db userId)) = user_history db userId"
    by (rule concat_segment_runs)
  show "[] \<notin> set (segment_runs (user_history db userId))"
    by (rule segment_runs_not_Nil)
  have "concat (map messages_conv (rev (fetchConversations h Up db userId))) =
        concat (map (\<lambda>r. concat (map (\<lambda>e. [user_message h e, assistant_message h e]) r))
                  (segment_runs (user_history db userId)))"
    unfolding fetchConversations_runs by (simp add: comp_def messages_conversation_of)
  also have "\<dots> = concat (map (\<lambda>e. [user_message h e, assistant_message h e])
                       (concat (segment_runs (user_history db userId))))"
    by (rule concat_map_concat)
  finally show "concat (map messages_conv (rev (fetchConversations h Up db userId))) =
     concat (map (\<lambda>e. [user_message h e, assistant_message h e]) (user_history db userId))"
    unfolding concat_segment_runs .
qed

text \<open>
  C7: in every conversation that the segmenter produces, the rank of the \<open>i\<close>-th entry is
  the rank of the first entry plus \<open>i\<close>; the start rank of the conversation is the rank of
  its first entry.
\<close>

theorem conversation_ranks_consecutive:
  assumes "c \<in> set (fetchConversations h l db userId)"
  shows "\<exists>r \<in> set (segment_runs (user_history db userId)).
           c = conversation_of h r \<and> r \<noteq> [] \<and> startRank_conv c = chat_rank (r ! 0) \<and>
           (\<forall>i < length r. chat_rank (r ! i) = chat_rank (r ! 0) + int i)"
proof (cases l)
  case Down
  with assms show ?thesis by (simp add: fetchConversations_Down)
next
  case Up
  with assms have "c \<in> set (rev (map (conversation_of h) (segment_runs (user_history db userId))))"
    by (simp add: fetchConversations_runs)
  then obtain r where r: "r \<in> set (segment_runs (user_history db userId))"
    and c: "c = conversation_of h r"
    by auto
  have ne: "r \<noteq> []" using r segment_runs_not_Nil [of "user_history db userId"] by auto
  have "startRank_conv c = chat_rank (r ! 0)"
    unfolding c startRank_conversation_of using ne by (simp add: hd_conv_nth)
  moreover have "\<forall>i < length r. chat_rank (r ! i) = chat_rank (r ! 0) + int i"
    using segment_runs_consecutive [OF r] unfolding consecutive_def .
  ultimately show ?thesis using r c ne by blast
qed

theorem conversation_ranks_consecutive_witness:
  "conversation_of example_host (map (example_row ''u'') [5, 6])
     \<in> set (fetchConversations example_host Up example_db ''u'') \<and>
   (\<exists>r \<in> set (segment_runs (user_history example_db ''u'')).
      conversation_of example_host (map (example_row ''u'') [5, 6]) = conversation_of example_host r \<and>
      r \<noteq> [] \<and>
      startRank_conv (conversation_of example_host (map (example_row ''u'') [5, 6])) = chat_rank (r ! 0) \<and>
      (\<forall>i < length r. chat_rank (r ! i) = chat_rank (r ! 0) + int i))"
proof -
  have 1: "conversation_of example_host (map (example_row ''u'') [5, 6])
             \<in> set (fetchConversations example_host Up example_db ''u'')"
    unfolding example_fetch by simp
  from conversation_ranks_consecutive [OF 1] 1 show ?thesis by blast
qed

text \<open>
  C8: every entry \<open>e\<close> of a conversation contributes exactly two messages, next to each
  other and in the order of the entries: at position \<open>2 * i\<close> the message with id
  \<^verbatim>\<open>`${e.chat_id}_user`\<close>, role user and the request text of the \<open>i\<close>-th entry, at position
  \<open>2 * i + 1\<close> the message with id \<^verbatim>\<open>`${e.chat_id}_assistant`\<close>, role assistant and its
  response text. This holds for \<^verbatim>\<open>createConversationFromEntries\<close> on any entry list that is
  not empty, and so for each conversation of \<^verbatim>\<open>fetchConversations\<close>.
\<close>

theorem conversation_messages:
  "(entries_cur data \<noteq> [] \<longrightarrow>
      (\<exists>c. createConversationFromEntries h data = Some c \<and>
           length (messages_conv c) = 2 * length (entries_cur data) \<and>
           (\<forall>i < length (entries_cur data).
              messages_conv c ! (2 * i) = user_message h (entries_cur data ! i) \<and>
              messages_conv c ! (2 * i + 1) = assistant_message h (entries_cur data ! i)))) \<and>
   (c \<in> set (fetchConversations h l db userId) \<longrightarrow>
      (\<exists>r \<in> set (segment_runs (user_history db userId)).
           createConversationFromEntries h (current_of r) = Some c \<and>
           length (messages_conv c) = 2 * length r \<and>
           (\<forall>i < length r.
              messages_conv c ! (2 * i) = user_message h (r ! i) \<and>
              messages_conv c ! (2 * i + 1) = assistant_message h (r ! i))))"
proof (intro conjI impI)
  assume ne: "entries_cur data \<noteq> []"
  then obtain firstEntry rest where es: "entries_cur data = firstEntry # rest"
    by (cases "entries_cur data") auto
  let ?c = "conversation_from h data firstEntry (last (entries_cur data))"
  have 1: "createConversationFromEntries h data = Some ?c"
    by (simp add: createConversationFromEntries_def es)
  have m: "messages_conv ?c =
             concat (map (\<lambda>e. [user_message h e, assistant_message h e]) (entries_cur data))"
    by (simp add: conversation_from_def foldl_push)
  have 2: "length (messages_conv ?c) = 2 * length (entries_cur data)"
    unfolding m by (rule pair_messages_length)
  have 3: "\<forall>i < length (entries_cur data).
              messages_conv ?c ! (2 * i) = user_message h (entries_cur data ! i) \<and>
              messages_conv ?c ! (2 * i + 1) = assistant_message h (entries_cur data ! i)"
    unfolding m using pair_messages_nth by blast
  from 1 2 3 show "\<exists>c. createConversationFromEntries h data = Some c \<and>
           length (messages_conv c) = 2 * length (entries_cur data) \<and>
           (\<forall>i < length (entries_cur data).
              messages_conv c ! (2 * i) = user_message h (entries_cur data ! i) \<and>
              messages_conv c ! (2 * i + 1) = assistant_message h (entries_cur data ! i))"
    by blast
next
  assume "c \<in> set (fetchConversations h l db userId)"
  then have "c \<in> set (rev (map (conversation_of h) (segment_runs (user_history db userId))))"
    by (cases l) (simp_all add: fetchConversations_runs fetchConversations_Down)
  then obtain r where r: "r \<in> set (segment_runs (user_history db userId))"
    and c: "c = conversation_of h r"
    by auto
  have ne: "r \<noteq> []" using r segment_runs_not_Nil [of "user_history db userId"] by auto
  have 1: "createConversationFromEntries h (current_of r) = Some c"
    unfolding c by (rule create_current_of [OF ne])
  have 2: "length (messages_conv c) = 2 * length r"
    unfolding c messages_conversation_of by (rule pair_messages_length)
  have 3: "\<forall>i < length r.
              messages_conv c ! (2 * i) = user_message h (r ! i) \<and>
              messages_conv c ! (2 * i + 1) = assistant_message h (r ! i)"
    unfolding c messages_conversation_of using pair_messages_nth by blast
  from r 1 2 3 show "\<exists>r \<in> set (segment_runs (user_history db userId)).
           createConversationFromEntries h (current_of r) = Some c \<and>
           length (messages_conv c) = 2 * length r \<and>
           (\<forall>i < length r.
              messages_conv c ! (2 * i) = user_message h (r ! i) \<and>
              messages_conv c ! (2 * i + 1) = assistant_message h (r ! i))"
    by blast
qed

theorem conversation_messages_witness:
  "(\<exists>c. createConversationFromEntries example_host (current_of (map (example_row ''u'') [5, 6])) = Some c \<and>
        length (messages_conv c) = 4 \<and>
        messages_conv c ! 0 = user_message example_host (example_row ''u'' 5) \<and>
        messages_conv c ! 1 = assistant_message example_host (example_row ''u'' 5) \<and>
        messages_conv c ! 2 = user_message example_host (example_row ''u'' 6) \<and>
        messages_conv c ! 3 = assistant_message example_host (example_row ''u'' 6)) \<and>
   id_msg (user_message example_host (example_row ''u'' 5)) = ''u5_user'' \<and>
   id_msg (assistant_message example_host (example_row ''u'' 5)) = ''u5_assistant'' \<and>
   conversation_of example_host (map (example_row ''u'') [5, 6])
     \<in> set (fetchConversations example_host Up example_db ''u'') \<and>
   (\<exists>r \<in> set (segment_runs (user_history example_db ''u'')).
      createConversationFromEntries example_host (current_of r) =
        Some (conversation_of example_host (map (example_row ''u'') [5, 6])))"
proof -
  let ?data = "current_of (map (example_row ''u'') [5, 6])"
  let ?c = "conversation_of example_host (map (example_row ''u'') [5, 6])"
  have ne: "entries_cur ?data \<noteq> []" by (simp add: current_of_def)
  have mem: "?c \<in> set (fetchConversations example_host Up example_db ''u'')"
    unfolding example_fetch by simp
  from conversation_messages [of ?data example_host ?c Up example_db "''u''"] ne mem
  obtain c where c: "createConversationFromEntries example_host ?data = Some c"
    "length (messages_conv c) = 2 * length (entries_cur ?data)"
    "\<forall>i < length (entries_cur ?data).
        messages_conv c ! (2 * i) = user_message example_host (entries_cur ?data ! i) \<and>
        messages_conv c ! (2 * i + 1) = assistant_message example_host (entries_cur ?data ! i)"
    and r: "\<exists>r \<in> set (segment_runs (user_history example_db ''u'')).
      createConversationFromEntries example_host (current_of r) = Some ?c"
    by blast
  have len: "entries_cur ?data = [example_row ''u'' 5, example_row ''u'' 6]"
    by (simp add: current_of_def)
  have idx: "messages_conv c ! 0 = user_message example_host (example_row ''u'' 5)"
    "messages_conv c ! 1 = assistant_message example_host (example_row ''u'' 5)"
    "messages_conv c ! 2 = user_message example_host (example_row ''u'' 6)"
    "messages_conv c ! 3 = assistant_message example_host (example_row ''u'' 6)"
    using c(3) [unfolded len, rule_format, of 0] c(3) [unfolded len, rule_format, of 1]
    by simp_all
  have l4: "length (messages_conv c) = 4" using c(2) unfolding len by simp
  have ids: "id_msg (user_message example_host (example_row ''u'' 5)) = ''u5_user''"
    "id_msg (assistant_message example_host (example_row ''u'' 5)) = ''u5_assistant''"
    by (simp_all add: user_message_def assistant_message_def example_row_def make_chat_id_def
        number_toString_def nat_toString.simps digit_char_def)
  from c(1) l4 idx ids mem r show ?thesis by blast
qed

subsection \<open>Reading and deleting one conversation\<close>

text \<open>
  In a store of one user in which the unique index holds, the rows read from the start
  rank of a run on begin with that run, and the walk of \<^verbatim>\<open>getConversationMessages\<close> takes
  exactly the run.
\<close>

lemma walk_of_run:
  assumes "idx_chat_history_user_rank db"
    and "\<forall>row \<in> set (chat_history db). user_id row = u"
    and r: "r \<in> set (segment_runs (user_history db userId))"
  shows "take (length r) (history_from db (chat_rank (hd r))) = r \<and>
         continuous_entries (history_from db (chat_rank (hd r))) (chat_rank (hd r)) [] = r"
proof -
  let ?H = "user_history db userId"
  have nonempty: "r \<noteq> []" using r segment_runs_not_Nil [of ?H] by auto
  from r have "?H \<noteq> []" by (auto simp: segment_runs_def)
  then have H: "?H = sort_key chat_rank (chat_history db)"
    using single_user_history [OF assms(2), of userId] by (simp split: if_splits)
  from segment_runs_maximal [OF r] obtain pre post where
    split: "?H = pre @ r @ post" and
    gap: "post = [] \<or> chat_rank (hd post) \<noteq> chat_rank (last r) + 1"
    by blast
  have sorted: "sorted (map chat_rank (pre @ r @ post))"
    using sorted_user_history [of db userId] unfolding split .
  have distinct: "distinct (map chat_rank (pre @ r @ post))"
    using single_user_distinct_ranks [OF assms(1,2)] unfolding H [symmetric] split .
  let ?s = "chat_rank (hd r)"
  have entries: "history_from db ?s = r @ post"
    unfolding history_from_sorted H [symmetric] split
    by (rule filter_from_run [OF sorted distinct nonempty])
  have cons: "consecutive r" using segment_runs_consecutive [OF r] .
  have hd0: "hd r = r ! 0" using nonempty by (simp add: hd_conv_nth)
  have ranks: "map chat_rank r = map (\<lambda>i. ?s + int i) [0..<length r]"
    using consecutive_ranks [OF cons] unfolding hd0 .
  have "last r = r ! (length r - 1)" using nonempty by (rule last_conv_nth)
  then have "chat_rank (last r) = ?s + int (length r - 1)"
    unfolding hd0 using consecutiveD [OF cons, of "length r - 1"] nonempty by simp
  moreover have "int (length r - 1) + 1 = int (length r)"
    using nonempty by (cases r) simp_all
  ultimately have "chat_rank (last r) + 1 = ?s + int (length r)"
    by linarith
  with gap have gap': "post = [] \<or> chat_rank (hd post) \<noteq> ?s + int (length r)"
    by simp
  have walk: "continuous_entries (r @ post) ?s [] = r"
    by (rule continuous_entries_run [OF ranks gap'])
  show ?thesis
    unfolding entries walk by simp
qed

text \<open>
  C10: in a store that holds the entries of a single user, and in which the unique index
  \<^verbatim>\<open>idx_chat_history_user_rank\<close> of the schema holds, \<^verbatim>\<open>getConversationMessages\<close> called with
  the token \<^verbatim>\<open>conv_\<close> followed by the start rank of a conversation that \<^verbatim>\<open>fetchConversations\<close>
  returned gives the messages of that conversation.
\<close>

theorem messages_agree:
  assumes "idx_chat_history_user_rank db"
    and "\<forall>row \<in> set (chat_history db). user_id row = u"
    and "c \<in> set (fetchConversations h Up db userId)"
  shows "getConversationMessages h Up db (''conv_'' @ number_toString (startRank_conv c)) = messages_conv c"
proof -
  from assms(3) obtain r where r: "r \<in> set (segment_runs (user_history db userId))"
    and c: "c = conversation_of h r"
    unfolding fetchConversations_runs by auto
  have nonempty: "r \<noteq> []" using r segment_runs_not_Nil [of "user_history db userId"] by auto
  let ?s = "chat_rank (hd r)"
  from walk_of_run [OF assms(1,2) r]
  have entries: "take (length r) (history_from db ?s) = r"
    and walk: "continuous_entries (history_from db ?s) ?s [] = r"
    by simp_all
  have entries_nonempty: "history_from db ?s \<noteq> []"
    using entries nonempty by auto
  have start: "startRank_conv c = ?s"
    unfolding c by (rule startRank_conversation_of)
  have msgs: "messages_conv c = foldl (push_entry_messages h) [] r"
    unfolding c by (simp add: conversation_of_def conversation_from_def current_of_def)
  show ?thesis
    unfolding start msgs getConversationMessages_def token_rank_conv
    using entries_nonempty
    by (simp add: select_history_from_def walk)
qed

theorem messages_agree_witness:
  "idx_chat_history_user_rank example_db \<and>
   list_all (\<lambda>row. user_id row = ''u'') (chat_history example_db) \<and>
   conversation_of example_host (map (example_row ''u'') [5, 6])
     \<in> set (fetchConversations example_host Up example_db ''u'') \<and>
   getConversationMessages example_host Up example_db ''conv_5'' =
     messages_conv (conversation_of example_host (map (example_row ''u'') [5, 6]))"
proof -
  let ?c = "conversation_of example_host (map (example_row ''u'') [5, 6])"
  have 1: "idx_chat_history_user_rank example_db"
    by (simp add: idx_chat_history_user_rank_def example_db_def example_row_def)
  have 2: "\<forall>row \<in> set (chat_history example_db). user_id row = ''u''"
    by (simp add: example_db_def example_row_def)
  have 3: "?c \<in> set (fetchConversations example_host Up example_db ''u'')"
    unfolding example_fetch by simp
  have 4: "''conv_'' @ number_toString (startRank_conv ?c) = ''conv_5''"
    by (simp add: startRank_conversation_of example_row_def number_toString_def nat_toString.simps digit_char_def)
  from messages_agree [OF 1 2 3] 1 2 3 show ?thesis
    unfolding 4 list_all_iff by blast
qed

subsection \<open>Deleting in a store of one user\<close>

text \<open>
  The loop that finds \<^verbatim>\<open>endRank\<close> and the walk of \<^verbatim>\<open>getConversationMessages\<close> agree on rows
  of strictly ascending ranks: the rows up to \<^verbatim>\<open>endRank\<close> are the rows the walk takes.
\<close>

lemma find_endRank_ge: "e \<le> find_endRank xs e"
proof (induction xs arbitrary: e)
  case Nil
  then show ?case by simp
next
  case (Cons x xs)
  show ?case
  proof (cases xs)
    case Nil
    then show ?thesis by simp
  next
    case (Cons y ys)
    with Cons.IH [of e] Cons.IH [of "e + 1"] show ?thesis by auto
  qed
qed

lemma find_endRank_skip: "\<forall>x \<in> set xs. e < x \<Longrightarrow> find_endRank xs e = e"
  by (induction xs) auto

lemma find_endRank_walk:
  "sorted_wrt (<) (map chat_rank es) \<Longrightarrow> \<forall>x \<in> set es. e \<le> chat_rank x \<Longrightarrow>
   {x \<in> set es. chat_rank x \<le> find_endRank (map chat_rank es) e} = set (continuous_entries es e [])"
proof (induction es arbitrary: e)
  case Nil
  then show ?case by simp
next
  case (Cons a rest)
  from Cons.prems(1) have above: "\<forall>x \<in> set rest. chat_rank a < chat_rank x"
    and sorted_rest: "sorted_wrt (<) (map chat_rank rest)"
    by simp_all
  show ?case
  proof (cases "chat_rank a = e")
    case False
    with Cons.prems(2) have "e < chat_rank a" by simp
    with above have "\<forall>x \<in> set (map chat_rank (a # rest)). e < x" by fastforce
    then have E: "find_endRank (map chat_rank (a # rest)) e = e"
      by (rule find_endRank_skip)
    have walk: "continuous_entries (a # rest) e [] = []"
      using False by simp
    have "\<forall>x \<in> set (a # rest). \<not> chat_rank x \<le> e"
      using \<open>e < chat_rank a\<close> above by fastforce
    then show ?thesis
      unfolding E walk by auto
  next
    case True
    have rest_above: "\<forall>x \<in> set rest. e + 1 \<le> chat_rank x"
      using above True by fastforce
    show ?thesis
    proof (cases rest)
      case Nil
      with True show ?thesis by auto
    next
      case (Cons b rest')
      show ?thesis
      proof (cases "chat_rank b = e + 1")
        case next_rank: True
        let ?E = "find_endRank (map chat_rank rest) (e + 1)"
        have E: "find_endRank (map chat_rank (a # rest)) e = ?E"
          using True next_rank Cons by simp
        have walk: "continuous_entries (a # rest) e [] = a # continuous_entries rest (e + 1) []"
          using True continuous_entries_acc [of rest "e + 1" "[a]"] by simp
        have "e + 1 \<le> ?E" by (rule find_endRank_ge)
        then have a: "chat_rank a \<le> ?E" using True by simp
        from Cons.IH [OF sorted_rest rest_above]
        have "{x \<in> set rest. chat_rank x \<le> ?E} = set (continuous_entries rest (e + 1) [])" .
        then show ?thesis
          unfolding E walk using a by auto
      next
        case gap: False
        have E: "find_endRank (map chat_rank (a # rest)) e = e"
          using True gap Cons by simp
        have walk: "continuous_entries (a # rest) e [] = [a]"
          using True gap Cons by simp
        have "\<forall>x \<in> set rest. \<not> chat_rank x \<le> e"
          using rest_above by fastforce
        then show ?thesis
          unfolding E walk using True by auto
      qed
    qed
  qed
qed

lemma history_from_strict:
  assumes "idx_chat_history_user_rank db" "\<forall>row \<in> set (chat_history db). user_id row = u"
  shows "sorted_wrt (<) (map chat_rank (history_from db r))"
proof -
  have "sorted (map chat_rank (history_from db r))"
    by (simp add: history_from_def)
  moreover have "distinct (map chat_rank (history_from db r))"
    unfolding history_from_sorted
    by (rule distinct_map_filter) (rule single_user_distinct_ranks [OF assms])
  ultimately show ?thesis by (simp add: strict_sorted_iff)
qed

lemma set_history_from: "set (history_from db r) = {row \<in> set (chat_history db). r \<le> chat_rank row}"
  by (auto simp: history_from_def)

text \<open>
  So in a store of one user \<^verbatim>\<open>deleteConversation\<close> removes exactly the rows whose messages
  \<^verbatim>\<open>getConversationMessages\<close> shows for the same token, and for the token of a conversation
  of \<^verbatim>\<open>fetchConversations\<close> exactly the run of that conversation. The rows of other users
  are what it gets wrong (see C1).
\<close>

lemma deleteConversation_single_user:
  assumes "idx_chat_history_user_rank db"
    and "\<forall>row \<in> set (chat_history db). user_id row = u"
    and "history_from db r \<noteq> []"
  shows "deleteConversation Up Up db (''conv_'' @ number_toString r) =
           (True, db\<lparr>chat_history :=
                     filter (\<lambda>row. row \<notin> set (continuous_entries (history_from db r) r []))
                       (chat_history db)\<rparr>)"
proof -
  let ?entries = "history_from db r"
  let ?E = "find_endRank (map chat_rank ?entries) r"
  have above: "\<forall>x \<in> set ?entries. r \<le> chat_rank x"
    by (simp add: set_history_from)
  from find_endRank_walk [OF history_from_strict [OF assms(1,2)] above]
  have walk: "{x \<in> set ?entries. chat_rank x \<le> ?E} = set (continuous_entries ?entries r [])" .
  have "filter (\<lambda>row. \<not> (r \<le> chat_rank row \<and> chat_rank row \<le> ?E)) (chat_history db) =
        filter (\<lambda>row. row \<notin> set (continuous_entries ?entries r [])) (chat_history db)"
  proof (rule filter_cong [OF refl])
    fix row assume "row \<in> set (chat_history db)"
    then have "(r \<le> chat_rank row \<and> chat_rank row \<le> ?E) =
                 (row \<in> {x \<in> set ?entries. chat_rank x \<le> ?E})"
      by (simp add: set_history_from)
    then show "(\<not> (r \<le> chat_rank row \<and> chat_rank row \<le> ?E)) =
                 (row \<notin> set (continuous_entries ?entries r []))"
      unfolding walk by simp
  qed
  then show ?thesis
    unfolding deleteConversation_def token_rank_conv
    using assms(3) by (simp add: select_history_from_def delete_range_def Let_def)
qed

lemma deleteConversation_run:
  assumes "idx_chat_history_user_rank db"
    and "\<forall>row \<in> set (chat_history db). user_id row = u"
    and "r \<in> set (segment_runs (user_history db userId))"
  shows "deleteConversation Up Up db (''conv_'' @ number_toString (chat_rank (hd r))) =
           (True, db\<lparr>chat_history := filter (\<lambda>row. row \<notin> set r) (chat_history db)\<rparr>)"
proof -
  have nonempty: "r \<noteq> []"
    using assms(3) segment_runs_not_Nil [of "user_history db userId"] by auto
  from walk_of_run [OF assms]
  have entries: "take (length r) (history_from db (chat_rank (hd r))) = r"
    and walk: "continuous_entries (history_from db (chat_rank (hd r))) (chat_rank (hd r)) [] = r"
    by simp_all
  have "history_from db (chat_rank (hd r)) \<noteq> []"
    using entries nonempty by auto
  from deleteConversation_single_user [OF assms(1,2) this] show ?thesis
    unfolding walk .
qed

end
